theory Spec2Isabelle
  imports Main "HOL-Library.Word" "HOL-Library.Signed_Division"
begin

section \<open>Wall-clock time and its textual form\<close>

text \<open>
  \<^verbatim>\<open>getCurrentUtcTime\<close> (bag_recorder_node.cpp, lines 188-196) reads
  \<^verbatim>\<open>std::chrono::system_clock::now()\<close>, converts it with \<^verbatim>\<open>to_time_t\<close>,
  breaks it down with \<^verbatim>\<open>std::gmtime\<close> and prints it with
  \<^verbatim>\<open>std::put_time(&utc_tm, "%Y_%m_%d_%H_%M_%S")\<close>. The clock reading is an
  input of the model: the tick count of the clock, a signed 64-bit number of
  nanoseconds since 1970-01-01T00:00:00Z (the representation of libstdc++).
\<close>

type_synonym time_point = "64 word"
type_synonym time_t = int

text \<open>\<^verbatim>\<open>to_time_t\<close> casts the duration to whole seconds; the cast truncates towards zero.\<close>

definition to_time_t :: "time_point \<Rightarrow> time_t" where
  "to_time_t tp = sint tp sdiv 1000000000"

text \<open>The fields of \<^verbatim>\<open>struct tm\<close> that the format string reads.\<close>

record tm =
  tm_sec :: int
  tm_min :: int
  tm_hour :: int
  tm_mday :: int
  tm_mon :: int
  tm_year :: int

definition is_leap :: "int \<Rightarrow> bool" where
  "is_leap y = (if y mod 400 = 0 then True else if y mod 100 = 0 then False else y mod 4 = 0)"

definition year_len :: "int \<Rightarrow> int" where
  "year_len y = (if is_leap y then 366 else 365)"

definition month_lens :: "int \<Rightarrow> int list" where
  "month_lens y = [31, if is_leap y then 29 else 28, 31, 30, 31, 30, 31, 31, 30, 31, 30, 31]"

text \<open>
  Modelled from the spec: \<^verbatim>\<open>std::gmtime\<close> belongs to the C library, not to this
  repository. The model walks from 1970 one year at a time to the year that holds
  the day, then through the months of that year.
\<close>

function year_loop :: "int \<Rightarrow> int \<Rightarrow> int \<times> int" where
  "year_loop y days =
     (if days < 0 then year_loop (y - 1) (days + year_len (y - 1))
      else if year_len y \<le> days then year_loop (y + 1) (days - year_len y)
      else (y, days))"
  by pat_completeness auto
termination
  by (relation "measure (\<lambda>(y, days). if days < 0 then nat (- days) + 366 else nat days)")
     (auto simp: year_len_def split: if_splits)

fun month_loop :: "int list \<Rightarrow> int \<Rightarrow> int \<Rightarrow> int \<times> int" where
  "month_loop [] m d = (m, d)"
| "month_loop (l # ls) m d = (if d < l then (m, d) else month_loop ls (m + 1) (d - l))"

definition gmtime :: "time_t \<Rightarrow> tm" where
  "gmtime t =
     (let days = t div 86400;
          rem = t mod 86400;
          (y, yday) = year_loop 1970 days;
          (mon, mday0) = month_loop (month_lens y) 0 yday
      in \<lparr>tm_sec = rem mod 60, tm_min = rem mod 3600 div 60, tm_hour = rem div 3600,
          tm_mday = mday0 + 1, tm_mon = mon, tm_year = y - 1900\<rparr>)"

text \<open>Decimal output, as the conversions of \<^verbatim>\<open>put_time\<close> write numbers.\<close>

definition digit_char :: "nat \<Rightarrow> char" where
  "digit_char d = ''0123456789'' ! d"

function show_nat :: "nat \<Rightarrow> string" where
  "show_nat n = (if n < 10 then [digit_char n] else show_nat (n div 10) @ [digit_char (n mod 10)])"
  by pat_completeness auto
termination
  by (relation "measure id") auto

definition show_int :: "int \<Rightarrow> string" where
  "show_int i = (if i < 0 then CHR ''-'' # show_nat (nat (- i)) else show_nat (nat i))"

text \<open>A number written with at least two digits, zero filled.\<close>

definition show_int2 :: "int \<Rightarrow> string" where
  "show_int2 i = (if 0 \<le> i \<and> i < 10 then CHR ''0'' # show_int i else show_int i)"

text \<open>
  Modelled from the spec: \<^verbatim>\<open>std::put_time\<close> belongs to the C++ library. The model
  interprets the conversions the format string of this program uses:
  \<^verbatim>\<open>%Y\<close> the year as a decimal number, \<^verbatim>\<open>%m\<close> the month 01-12, \<^verbatim>\<open>%d\<close> the day of
  the month, \<^verbatim>\<open>%H\<close>, \<^verbatim>\<open>%M\<close>, \<^verbatim>\<open>%S\<close> hour, minute and second, two digits each;
  every other character is copied.
\<close>

definition conversion :: "tm \<Rightarrow> char \<Rightarrow> string" where
  "conversion t c =
     (if c = CHR ''Y'' then show_int (tm_year t + 1900)
      else if c = CHR ''m'' then show_int2 (tm_mon t + 1)
      else if c = CHR ''d'' then show_int2 (tm_mday t)
      else if c = CHR ''H'' then show_int2 (tm_hour t)
      else if c = CHR ''M'' then show_int2 (tm_min t)
      else if c = CHR ''S'' then show_int2 (tm_sec t)
      else [CHR ''%'', c])"

fun put_time :: "tm \<Rightarrow> string \<Rightarrow> string" where
  "put_time t [] = []"
| "put_time t [c] = [c]"
| "put_time t (c # c' # cs) =
     (if c = CHR ''%'' then conversion t c' @ put_time t cs else c # put_time t (c' # cs))"

definition getCurrentUtcTime :: "time_point \<Rightarrow> string" where
  "getCurrentUtcTime now =
     (let now_time_t = to_time_t now;
          utc_tm = gmtime now_time_t
      in put_time utc_tm ''%Y_%m_%d_%H_%M_%S'')"

definition getDataPath :: "string \<Rightarrow> time_point \<Rightarrow> string" where
  "getDataPath baseFolder now =
     (let systemStartTime = getCurrentUtcTime now
      in baseFolder @ ''/Bag_'' @ systemStartTime)"

text \<open>
  The calendar the claims speak of: the number of seconds from the epoch to a date
  and time of day given in the proleptic Gregorian calendar, in UTC. It is written
  down on its own, with the leap rule, the lengths of the months and the days before
  each month as the calendar gives them, and shares nothing with the walk above.
\<close>

definition leaps_thru :: "int \<Rightarrow> int" where
  "leaps_thru y = y div 4 - y div 100 + y div 400"

definition days_before_year :: "int \<Rightarrow> int" where
  "days_before_year y = 365 * (y - 1970) + (leaps_thru (y - 1) - leaps_thru 1969)"

definition gregorian_leap :: "int \<Rightarrow> bool" where
  "gregorian_leap y = (4 dvd y \<and> (400 dvd y \<or> \<not> 100 dvd y))"

definition days_in_month :: "int \<Rightarrow> int \<Rightarrow> int" where
  "days_in_month y m =
     (if m = 2 then (if gregorian_leap y then 29 else 28)
      else if m = 4 \<or> m = 6 \<or> m = 9 \<or> m = 11 then 30
      else 31)"

definition days_before_month :: "int \<Rightarrow> int \<Rightarrow> int" where
  "days_before_month y m =
     [0, 31, 59, 90, 120, 151, 181, 212, 243, 273, 304, 334] ! nat (m - 1)
     + (if gregorian_leap y \<and> 2 < m then 1 else 0)"

definition timegm :: "int \<Rightarrow> int \<Rightarrow> int \<Rightarrow> int \<Rightarrow> int \<Rightarrow> int \<Rightarrow> time_t" where
  "timegm y mo d h mi s =
     (((days_before_year y + days_before_month y mo + (d - 1)) * 24 + h) * 60 + mi) * 60 + s"

definition civil_ok :: "int \<Rightarrow> int \<Rightarrow> int \<Rightarrow> int \<Rightarrow> int \<Rightarrow> int \<Rightarrow> bool" where
  "civil_ok y mo d h mi s =
     (1 \<le> mo \<and> mo \<le> 12 \<and> 1 \<le> d \<and> d \<le> days_in_month y mo
      \<and> 0 \<le> h \<and> h < 24 \<and> 0 \<le> mi \<and> mi < 60 \<and> 0 \<le> s \<and> s < 60)"

text \<open>A number below 10000 in four digits, a number below 100 in two.\<close>

definition dec4 :: "int \<Rightarrow> string" where
  "dec4 i = (let n = nat i in
     [digit_char (n div 1000 mod 10), digit_char (n div 100 mod 10),
      digit_char (n div 10 mod 10), digit_char (n mod 10)])"

definition dec2 :: "int \<Rightarrow> string" where
  "dec2 i = (let n = nat i in [digit_char (n div 10 mod 10), digit_char (n mod 10)])"

definition YYYY_MM_DD_HH_MM_SS :: "int \<Rightarrow> int \<Rightarrow> int \<Rightarrow> int \<Rightarrow> int \<Rightarrow> int \<Rightarrow> string" where
  "YYYY_MM_DD_HH_MM_SS y mo d h mi s =
     dec4 y @ ''_'' @ dec2 mo @ ''_'' @ dec2 d @ ''_'' @ dec2 h @ ''_'' @ dec2 mi @ ''_'' @ dec2 s"

section \<open>The objects the recorder node works with\<close>

text \<open>
  \<^verbatim>\<open>rosbag2_storage::StorageOptions\<close> and \<^verbatim>\<open>rosbag2_transport::RecordOptions\<close>
  are declared in rosbag2; the records below hold the members this program sets.
  \<^verbatim>\<open>RecordOptions\<close> is filled by aggregate initialisation, so the order of its first
  five members is the order of the initialiser lists in \<^verbatim>\<open>start_recording\<close>.
\<close>

record StorageOptions =
  uri :: string
  storage_id :: string
  max_bagfile_size :: "64 word"
  max_bagfile_duration :: "64 word"
  max_cache_size :: "64 word"
  storage_preset_profile :: string
  snapshot_mode :: bool

record RecordOptions =
  all :: bool
  is_discovery_disabled :: bool
  topics :: "string list"
  rmw_serialization_format :: string
  topic_polling_interval :: nat

text \<open>
  Heap objects are told apart by the number they get when they are made. A
  \<^verbatim>\<open>shared_ptr\<close> is an option: \<open>None\<close> is the null pointer.
\<close>

type_synonym obj_id = nat

record Recorder =
  rec_id :: obj_id
  rec_writer :: "obj_id option"
  rec_storage :: StorageOptions
  rec_options :: RecordOptions

text \<open>The units an executor runs: the control node itself and recorder nodes.\<close>

datatype node = ControlNode | RecorderNode obj_id

text \<open>
  The calls that leave the class, in the order they are made; the state keeps them as
  a history so that begins and ends of sessions can be counted.
\<close>

datatype call = MakeWriter obj_id | MakeRecorder obj_id | AddNode obj_id | Record obj_id
  | Stop obj_id | RemoveNode obj_id

text \<open>
  Failure is a value. A call into rosbag2 or rclcpp may throw; the environment says
  which ones do. Reading element 0 of an empty vector and calling through a null
  pointer are undefined behaviour in C++; the model stops there and says so.
\<close>

datatype call_site = At_make_writer | At_make_recorder | At_add_node | At_record | At_stop
  | At_remove_node

datatype error = Exception call_site | IndexOutOfRange | NullExecutor | NullRecorder

text \<open>What one run of a member function gets from outside: the clock and the faults.\<close>

record Env =
  clock :: time_point
  throws :: "call_site set"

text \<open>The parameters the node reads at construction and the control message.\<close>

record Params =
  dataFolder :: string
  fileDuration :: "64 word"
  loggedTopics :: "string list"

record Bagcontrol =
  enable_recording :: bool

text \<open>
  The members of \<^verbatim>\<open>class BagRecorder\<close> (lines 176-186). \<open>executor\<close> holds the nodes
  registered in the executor the pointer refers to. \<open>next_obj\<close> and \<open>calls\<close> are not
  members: they are the allocator's counter and the history of outgoing calls. The members
  whose names end in an underscore in the source are written without it.
\<close>

record BagRecorder =
  data_folder :: string
  executor :: "node list option"
  file_duration :: "32 word"
  logged_topics :: "string list"
  storage_options :: StorageOptions
  recorder :: "Recorder option"
  writer :: "obj_id option"
  recording :: bool
  next_obj :: obj_id
  calls :: "call list"

type_synonym result = "error \<times> BagRecorder + BagRecorder"

text \<open>Sequencing: the second step runs only if the first returned.\<close>

definition and_then :: "result \<Rightarrow> (BagRecorder \<Rightarrow> result) \<Rightarrow> result" where
  "and_then r f = (case r of Inl e \<Rightarrow> Inl e | Inr s \<Rightarrow> f s)"

section \<open>The recorder node\<close>

text \<open>
  The constructor (lines 37-51). The parameter \<^verbatim>\<open>fileDuration\<close> is a 64-bit integer
  and the member \<^verbatim>\<open>file_duration_\<close> an \<^verbatim>\<open>int\<close>: the assignment keeps the low 32 bits.
  The storage options start with the defaults of rosbag2.
\<close>

definition default_storage_options :: StorageOptions where
  "default_storage_options =
     \<lparr>uri = [], storage_id = [], max_bagfile_size = 0, max_bagfile_duration = 0,
      max_cache_size = 0, storage_preset_profile = [], snapshot_mode = False\<rparr>"

definition BagRecorder_new :: "Params \<Rightarrow> BagRecorder" where
  "BagRecorder_new p =
     \<lparr>data_folder = dataFolder p, executor = None, file_duration = ucast (fileDuration p),
      logged_topics = loggedTopics p, storage_options = default_storage_options,
      recorder = None, writer = None, recording = False, next_obj = 0, calls = []\<rparr>"

definition get_recorder :: "BagRecorder \<Rightarrow> Recorder option" where
  "get_recorder s = recorder s"

definition set_executor :: "BagRecorder \<Rightarrow> node list option \<Rightarrow> BagRecorder" where
  "set_executor s executorSet = s\<lparr>executor := executorSet\<rparr>"

text \<open>
  \<^verbatim>\<open>start_recording\<close> (lines 82-129), statement by statement. The printing to
  \<^verbatim>\<open>std::cout\<close> is left out.
\<close>

text \<open>Lines 96-102: the storage options.\<close>

definition set_storage_options :: "BagRecorder \<Rightarrow> Env \<Rightarrow> BagRecorder" where
  "set_storage_options s env =
     s\<lparr>storage_options := (storage_options s)
         \<lparr>uri := getDataPath (data_folder s) (clock env),
          storage_id := ''mcap'',
          max_bagfile_size := 0,
          max_bagfile_duration := scast (file_duration s),
          max_cache_size := 10485760,
          storage_preset_profile := [],
          snapshot_mode := False\<rparr>\<rparr>"

text \<open>Line 106: \<^verbatim>\<open>writer_ = std::make_shared<rosbag2_cpp::Writer>()\<close>.\<close>

definition make_writer :: "BagRecorder \<Rightarrow> Env \<Rightarrow> result" where
  "make_writer s env =
     (if At_make_writer \<in> throws env then Inl (Exception At_make_writer, s)
      else Inr (s\<lparr>writer := Some (next_obj s), next_obj := Suc (next_obj s),
                  calls := calls s @ [MakeWriter (next_obj s)]\<rparr>))"

text \<open>
  Lines 110-120: the record options chosen from the topic list. \<^verbatim>\<open>logged_topics_[0]\<close>
  on an empty vector reads out of range.
\<close>

definition record_options_of :: "string list \<Rightarrow> error + RecordOptions" where
  "record_options_of configured =
     (case configured of
        [] \<Rightarrow> Inl IndexOutOfRange
      | first # _ \<Rightarrow>
          if first = ''*''
          then Inr \<lparr>all = True, is_discovery_disabled = False, topics = [],
                    rmw_serialization_format = ''cdr'', topic_polling_interval = 1000\<rparr>
          else Inr \<lparr>all = False, is_discovery_disabled = False, topics = configured,
                    rmw_serialization_format = ''cdr'', topic_polling_interval = 1000\<rparr>)"

text \<open>Lines 122-123: the recorder object, made from the writer and both option sets.\<close>

definition make_recorder :: "RecordOptions \<Rightarrow> BagRecorder \<Rightarrow> Env \<Rightarrow> result" where
  "make_recorder record_options s env =
     (if At_make_recorder \<in> throws env then Inl (Exception At_make_recorder, s)
      else Inr (s\<lparr>recorder := Some \<lparr>rec_id = next_obj s, rec_writer = writer s,
                                     rec_storage = storage_options s,
                                     rec_options = record_options\<rparr>,
                  next_obj := Suc (next_obj s),
                  calls := calls s @ [MakeRecorder (next_obj s)]\<rparr>))"

text \<open>Line 126: \<^verbatim>\<open>executor->add_node(recorder_)\<close>.\<close>

definition add_node :: "BagRecorder \<Rightarrow> Env \<Rightarrow> result" where
  "add_node s env =
     (case executor s of
        None \<Rightarrow> Inl (NullExecutor, s)
      | Some ns \<Rightarrow>
          (case recorder s of
             None \<Rightarrow> Inl (NullRecorder, s)
           | Some r \<Rightarrow>
               if At_add_node \<in> throws env then Inl (Exception At_add_node, s)
               else Inr (s\<lparr>executor := Some (ns @ [RecorderNode (rec_id r)]),
                           calls := calls s @ [AddNode (rec_id r)]\<rparr>)))"

text \<open>Lines 127-128: \<^verbatim>\<open>recorder_->record()\<close>, then the flag.\<close>

definition record_and_flag :: "BagRecorder \<Rightarrow> Env \<Rightarrow> result" where
  "record_and_flag s env =
     (case recorder s of
        None \<Rightarrow> Inl (NullRecorder, s)
      | Some r \<Rightarrow>
          if At_record \<in> throws env then Inl (Exception At_record, s)
          else Inr (s\<lparr>calls := calls s @ [Record (rec_id r)], recording := True\<rparr>))"

definition start_recording :: "BagRecorder \<Rightarrow> Env \<Rightarrow> result" where
  "start_recording s env =
     and_then (make_writer (set_storage_options s env) env) (\<lambda>s1.
       case record_options_of (logged_topics s1) of
         Inl e \<Rightarrow> Inl (e, s1)
       | Inr record_options \<Rightarrow>
           and_then (make_recorder record_options s1 env) (\<lambda>s2.
           and_then (add_node s2 env) (\<lambda>s3.
           record_and_flag s3 env)))"

text \<open>
  \<^verbatim>\<open>stop_recording\<close> (lines 155-163). \<^verbatim>\<open>remove_node\<close> of rclcpp throws when the node
  is not registered.
\<close>

definition stop_recording :: "BagRecorder \<Rightarrow> Env \<Rightarrow> result" where
  "stop_recording s env =
     (if recording s then
        (case recorder s of
           None \<Rightarrow> Inl (NullRecorder, s)
         | Some r \<Rightarrow>
             if At_stop \<in> throws env then Inl (Exception At_stop, s)
             else
               let s1 = s\<lparr>calls := calls s @ [Stop (rec_id r)]\<rparr> in
               (case executor s1 of
                  None \<Rightarrow> Inl (NullExecutor, s1)
                | Some ns \<Rightarrow>
                    if At_remove_node \<in> throws env \<or> RecorderNode (rec_id r) \<notin> set ns
                    then Inl (Exception At_remove_node, s1)
                    else Inr (s1\<lparr>executor := Some (removeAll (RecorderNode (rec_id r)) ns),
                                 calls := calls s1 @ [RemoveNode (rec_id r)],
                                 recording := False\<rparr>)))
      else Inr s)"

text \<open>\<^verbatim>\<open>control_callback\<close> (lines 137-150): two tests, one after the other.\<close>

definition control_callback :: "BagRecorder \<Rightarrow> Bagcontrol \<Rightarrow> Env \<Rightarrow> result" where
  "control_callback s msg env =
     and_then
       (if enable_recording msg \<and> \<not> recording s then start_recording s env else Inr s)
       (\<lambda>s1. if \<not> enable_recording msg \<and> recording s1 then stop_recording s1 env else Inr s1)"

text \<open>\<^verbatim>\<open>reset_bag_recording\<close> (lines 168-173).\<close>

definition reset_bag_recording :: "BagRecorder \<Rightarrow> Env \<Rightarrow> result" where
  "reset_bag_recording s env = and_then (stop_recording s env) (\<lambda>s1. start_recording s1 env)"

text \<open>
  \<^verbatim>\<open>main\<close> (lines 205-221): the node is constructed, registered in a fresh executor,
  given that executor, and started; then the executor spins, which here means that
  the control messages are handed to the callback one after the other, in the order
  of their arrival. An exception that leaves a member function ends the run.
\<close>

definition launch :: "Params \<Rightarrow> Env \<Rightarrow> result" where
  "launch p env = start_recording (set_executor (BagRecorder_new p) (Some [ControlNode])) env"

fun spin :: "BagRecorder \<Rightarrow> (Bagcontrol \<times> Env) list \<Rightarrow> result" where
  "spin s [] = Inr s"
| "spin s ((msg, env) # rest) = and_then (control_callback s msg env) (\<lambda>s1. spin s1 rest)"

definition main :: "Params \<Rightarrow> Env \<Rightarrow> (Bagcontrol \<times> Env) list \<Rightarrow> result" where
  "main p env msgs = and_then (launch p env) (\<lambda>s. spin s msgs)"

section \<open>Reading the state\<close>

text \<open>The recorder nodes registered in the executor.\<close>

fun recorder_nodes :: "node list \<Rightarrow> obj_id list" where
  "recorder_nodes [] = []"
| "recorder_nodes (ControlNode # ns) = recorder_nodes ns"
| "recorder_nodes (RecorderNode i # ns) = i # recorder_nodes ns"

definition registered :: "BagRecorder \<Rightarrow> obj_id list" where
  "registered s = (case executor s of None \<Rightarrow> [] | Some ns \<Rightarrow> recorder_nodes ns)"

text \<open>
  The history of calls read as sessions. A session is open from the registration of
  its recorder to the removal of it. The walk fails (\<open>None\<close>) when a call of a begin
  is made while a session is open, or a call is made on a recorder that is not the
  one of the open session.
\<close>

datatype session = NoSession | Session obj_id

fun session_step :: "session option \<Rightarrow> call \<Rightarrow> session option" where
  "session_step None c = None"
| "session_step (Some NoSession) (MakeWriter i) = Some NoSession"
| "session_step (Some NoSession) (MakeRecorder i) = Some NoSession"
| "session_step (Some NoSession) (AddNode i) = Some (Session i)"
| "session_step (Some NoSession) c = None"
| "session_step (Some (Session j)) (Record i) = (if i = j then Some (Session j) else None)"
| "session_step (Some (Session j)) (Stop i) = (if i = j then Some (Session j) else None)"
| "session_step (Some (Session j)) (RemoveNode i) = (if i = j then Some NoSession else None)"
| "session_step (Some (Session j)) c = None"

definition sessions :: "call list \<Rightarrow> session option" where
  "sessions cs = foldl session_step (Some NoSession) cs"

text \<open>How often a session was begun (\<^verbatim>\<open>record()\<close>) and ended (\<^verbatim>\<open>stop()\<close>).\<close>

fun is_begin :: "call \<Rightarrow> bool" where
  "is_begin (Record i) = True"
| "is_begin c = False"

fun is_end :: "call \<Rightarrow> bool" where
  "is_end (Stop i) = True"
| "is_end c = False"

definition begins :: "BagRecorder \<Rightarrow> nat" where
  "begins s = length (filter is_begin (calls s))"

definition ends :: "BagRecorder \<Rightarrow> nat" where
  "ends s = length (filter is_end (calls s))"

text \<open>A configuration as the spec wants it: a positive duration and some topic.\<close>

definition valid_config :: "BagRecorder \<Rightarrow> bool" where
  "valid_config s = (0 < sint (file_duration s) \<and> logged_topics s \<noteq> [])"

text \<open>
  The final state of a run, whether it returned or stopped at a failure.
\<close>

definition state_of :: "result \<Rightarrow> BagRecorder" where
  "state_of r = (case r of Inl (e, s) \<Rightarrow> s | Inr s \<Rightarrow> s)"

text \<open>
  What holds of the state between two member-function calls: an executor is set, a
  recorder that was made is older than the allocator's counter, and the flag agrees
  with the executor's registry and with the history of calls.
\<close>

definition consistent :: "BagRecorder \<Rightarrow> bool" where
  "consistent s =
     (executor s \<noteq> None \<and>
      (case recorder s of
         None \<Rightarrow> \<not> recording s \<and> registered s = [] \<and> sessions (calls s) = Some NoSession
       | Some r \<Rightarrow>
           rec_id r < next_obj s \<and>
           (if recording s
            then registered s = [rec_id r] \<and> sessions (calls s) = Some (Session (rec_id r))
            else registered s = [] \<and> sessions (calls s) = Some NoSession)))"

text \<open>What still holds where a run stopped at a failure.\<close>

definition orderly :: "BagRecorder \<Rightarrow> bool" where
  "orderly s = (sessions (calls s) \<noteq> None \<and> length (registered s) \<le> 1)"

declare year_loop.simps [simp del]
declare show_nat.simps [simp del]

section \<open>Steps of the controller\<close>


lemma and_then_Inr [simp]: "and_then (Inr s) f = f s"
  by (simp add: and_then_def)

lemma and_then_Inl [simp]: "and_then (Inl e) f = Inl e"
  by (simp add: and_then_def)

lemmas start_defs = start_recording_def make_writer_def make_recorder_def add_node_def
  record_and_flag_def set_storage_options_def

lemma start_recording_Inr:
  assumes "start_recording s env = Inr s'"
  shows "\<exists>ro ns. record_options_of (logged_topics s) = Inr ro \<and> executor s = Some ns \<and>
     s' = s\<lparr>storage_options := storage_options (set_storage_options s env),
            writer := Some (next_obj s),
            recorder := Some \<lparr>rec_id = Suc (next_obj s), rec_writer = Some (next_obj s),
                               rec_storage = storage_options (set_storage_options s env),
                               rec_options = ro\<rparr>,
            executor := Some (ns @ [RecorderNode (Suc (next_obj s))]),
            next_obj := Suc (Suc (next_obj s)),
            calls := calls s @ [MakeWriter (next_obj s), MakeRecorder (Suc (next_obj s)),
                                AddNode (Suc (next_obj s)), Record (Suc (next_obj s))],
            recording := True\<rparr>"
  using assms
  by (auto simp: start_defs split: if_splits sum.splits option.splits)

lemma start_recording_succeeds:
  assumes "record_options_of (logged_topics s) = Inr ro" and "executor s = Some ns"
    and "throws env = {}"
  shows "start_recording s env =
     Inr (s\<lparr>storage_options := storage_options (set_storage_options s env),
            writer := Some (next_obj s),
            recorder := Some \<lparr>rec_id = Suc (next_obj s), rec_writer = Some (next_obj s),
                               rec_storage = storage_options (set_storage_options s env),
                               rec_options = ro\<rparr>,
            executor := Some (ns @ [RecorderNode (Suc (next_obj s))]),
            next_obj := Suc (Suc (next_obj s)),
            calls := calls s @ [MakeWriter (next_obj s), MakeRecorder (Suc (next_obj s)),
                                AddNode (Suc (next_obj s)), Record (Suc (next_obj s))],
            recording := True\<rparr>)"
  using assms by (simp add: start_defs)

lemma record_options_of_Cons:
  "record_options_of (t # ts) =
     Inr \<lparr>all = (t = ''*''), is_discovery_disabled = False,
          topics = (if t = ''*'' then [] else t # ts),
          rmw_serialization_format = ''cdr'', topic_polling_interval = 1000\<rparr>"
  by (simp add: record_options_of_def)

lemma start_recording_Inl:
  assumes "start_recording s env = Inl (e, s')"
  shows "recording s' = recording s"
  using assms
  by (auto simp: start_defs split: if_splits sum.splits option.splits)

lemma start_recording_Inl_executor:
  assumes "start_recording s env = Inl (e, s')"
  shows "if e = Exception At_record
         then \<exists>ns. executor s = Some ns \<and> executor s' = Some (ns @ [RecorderNode (Suc (next_obj s))])
         else executor s' = executor s"
  using assms
  by (auto simp: start_defs record_options_of_def split: if_splits list.splits option.splits)

lemma stop_recording_Inr:
  assumes "stop_recording s env = Inr s'" and "recording s"
  shows "\<exists>r ns. recorder s = Some r \<and> executor s = Some ns \<and> RecorderNode (rec_id r) \<in> set ns \<and>
     s' = s\<lparr>executor := Some (removeAll (RecorderNode (rec_id r)) ns),
            calls := calls s @ [Stop (rec_id r), RemoveNode (rec_id r)],
            recording := False\<rparr>"
  using assms
  by (auto simp: stop_recording_def Let_def split: if_splits option.splits)

lemma stop_recording_idle: "\<not> recording s \<Longrightarrow> stop_recording s env = Inr s"
  by (simp add: stop_recording_def)

lemma stop_recording_frame:
  assumes "stop_recording s env = Inr s' \<or> stop_recording s env = Inl (e, s')"
  shows "recorder s' = recorder s \<and> writer s' = writer s"
  using assms
  by (auto simp: stop_recording_def Let_def split: if_splits option.splits)

lemma recorder_nodes_append: "recorder_nodes (xs @ ys) = recorder_nodes xs @ recorder_nodes ys"
  by (induction xs rule: recorder_nodes.induct) auto

lemma recorder_nodes_removeAll:
  "recorder_nodes (removeAll (RecorderNode i) ns) = removeAll i (recorder_nodes ns)"
  by (induction ns rule: recorder_nodes.induct) auto

lemma recorder_nodes_Nil_notin: "recorder_nodes ns = [] \<Longrightarrow> RecorderNode i \<notin> set ns"
  by (induction ns rule: recorder_nodes.induct) auto

lemma sessions_snoc: "sessions (cs @ [c]) = session_step (sessions cs) c"
  by (simp add: sessions_def)

lemma sessions_append: "sessions (cs @ ds) = foldl session_step (sessions cs) ds"
  by (simp add: sessions_def)

lemma consistent_orderly: "consistent s \<Longrightarrow> orderly s"
  by (auto simp: consistent_def orderly_def split: option.splits if_splits)

lemma consistent_new: "consistent (set_executor (BagRecorder_new p) (Some [ControlNode]))"
  by (simp add: consistent_def set_executor_def BagRecorder_new_def registered_def sessions_def)

lemma start_recording_consistent:
  assumes "consistent s" and "\<not> recording s" and "start_recording s env = Inr s'"
  shows "consistent s'"
proof -
  from start_recording_Inr [OF assms(3)] obtain ro ns where
    ex: "executor s = Some ns" and
    s': "s' = s\<lparr>storage_options := storage_options (set_storage_options s env),
            writer := Some (next_obj s),
            recorder := Some \<lparr>rec_id = Suc (next_obj s), rec_writer = Some (next_obj s),
                               rec_storage = storage_options (set_storage_options s env),
                               rec_options = ro\<rparr>,
            executor := Some (ns @ [RecorderNode (Suc (next_obj s))]),
            next_obj := Suc (Suc (next_obj s)),
            calls := calls s @ [MakeWriter (next_obj s), MakeRecorder (Suc (next_obj s)),
                                AddNode (Suc (next_obj s)), Record (Suc (next_obj s))],
            recording := True\<rparr>"
    by blast
  from assms(1,2) ex have idle: "recorder_nodes ns = []" "sessions (calls s) = Some NoSession"
    by (auto simp: consistent_def registered_def split: option.splits)
  show ?thesis
    unfolding s' using idle
    by (simp add: consistent_def registered_def recorder_nodes_append sessions_append)
qed

lemma start_recording_orderly:
  assumes "consistent s" and "\<not> recording s" and "start_recording s env = Inl (e, s')"
  shows "orderly s'"
proof -
  from assms(1,2) have idle: "registered s = []" "sessions (calls s) = Some NoSession"
    by (auto simp: consistent_def split: option.splits)
  from assms(3) idle show ?thesis
    by (auto simp: start_defs orderly_def registered_def recorder_nodes_append sessions_append
        record_options_of_def split: if_splits list.splits option.splits)
qed

lemma stop_recording_consistent:
  assumes "consistent s" and "stop_recording s env = Inr s'"
  shows "consistent s'"
proof (cases "recording s")
  case False
  with assms show ?thesis by (simp add: stop_recording_idle)
next
  case True
  from stop_recording_Inr [OF assms(2) True] obtain r ns where
    r: "recorder s = Some r" and ex: "executor s = Some ns" and
    s': "s' = s\<lparr>executor := Some (removeAll (RecorderNode (rec_id r)) ns),
            calls := calls s @ [Stop (rec_id r), RemoveNode (rec_id r)],
            recording := False\<rparr>"
    by blast
  from assms(1) True r ex have
    "rec_id r < next_obj s" "recorder_nodes ns = [rec_id r]"
    "sessions (calls s) = Some (Session (rec_id r))"
    by (auto simp: consistent_def registered_def)
  then show ?thesis
    unfolding s' using r
    by (simp add: consistent_def registered_def recorder_nodes_removeAll sessions_append)
qed

lemma stop_recording_orderly:
  assumes "consistent s" and "stop_recording s env = Inl (e, s')"
  shows "orderly s'"
proof -
  from assms(2) have rec: "recording s"
    by (auto simp: stop_recording_def split: if_splits)
  from assms(1) rec obtain r where r: "recorder s = Some r"
    by (auto simp: consistent_def split: option.splits)
  from assms(1) rec r have
    "registered s = [rec_id r]" "sessions (calls s) = Some (Session (rec_id r))"
    by (auto simp: consistent_def)
  with assms(2) rec r show ?thesis
    by (auto simp: stop_recording_def Let_def orderly_def registered_def sessions_snoc
        split: if_splits option.splits)
qed

lemma control_callback_cases:
  "control_callback s msg env =
     (if enable_recording msg then (if recording s then Inr s else start_recording s env)
      else stop_recording s env)"
proof (cases "start_recording s env")
  case (Inl a)
  then show ?thesis
    by (simp add: control_callback_def stop_recording_idle)
next
  case (Inr s1)
  then show ?thesis
    by (simp add: control_callback_def stop_recording_idle)
qed

lemma control_callback_consistent:
  assumes "consistent s" and "control_callback s msg env = Inr s'"
  shows "consistent s'"
  using assms
  by (auto simp: control_callback_cases split: if_splits
      intro: start_recording_consistent stop_recording_consistent)

lemma control_callback_orderly:
  assumes "consistent s" and "control_callback s msg env = Inl (e, s')"
  shows "orderly s'"
  using assms
  by (auto simp: control_callback_cases split: if_splits
      intro: start_recording_orderly stop_recording_orderly)

lemma spin_consistent:
  assumes "consistent s" and "spin s msgs = Inr s'"
  shows "consistent s'"
  using assms
proof (induction msgs arbitrary: s)
  case Nil
  then show ?case by simp
next
  case (Cons m msgs)
  obtain msg env where m: "m = (msg, env)" by (cases m)
  show ?case
  proof (cases "control_callback s msg env")
    case (Inl a)
    with Cons.prems m show ?thesis by simp
  next
    case (Inr s1)
    with Cons.prems m have "consistent s1" "spin s1 msgs = Inr s'"
      by (auto intro: control_callback_consistent)
    then show ?thesis by (rule Cons.IH)
  qed
qed

lemma spin_orderly:
  assumes "consistent s" and "spin s msgs = Inl (e, s')"
  shows "orderly s'"
  using assms
proof (induction msgs arbitrary: s)
  case Nil
  then show ?case by simp
next
  case (Cons m msgs)
  obtain msg env where m: "m = (msg, env)" by (cases m)
  show ?case
  proof (cases "control_callback s msg env")
    case (Inl a)
    with Cons.prems m show ?thesis
      by (cases a) (auto intro: control_callback_orderly)
  next
    case (Inr s1)
    with Cons.prems m have "consistent s1" "spin s1 msgs = Inl (e, s')"
      by (auto intro: control_callback_consistent)
    then show ?thesis by (rule Cons.IH)
  qed
qed

lemma launch_consistent: "launch p env = Inr s \<Longrightarrow> consistent s"
  unfolding launch_def
  by (rule start_recording_consistent [OF consistent_new])
     (simp_all add: set_executor_def BagRecorder_new_def)

lemma launch_orderly: "launch p env = Inl (e, s) \<Longrightarrow> orderly s"
  unfolding launch_def
  by (rule start_recording_orderly [OF consistent_new])
     (simp_all add: set_executor_def BagRecorder_new_def)

lemma main_consistent:
  assumes "main p env msgs = Inr s"
  shows "consistent s"
proof (cases "launch p env")
  case (Inl a)
  with assms show ?thesis by (simp add: main_def)
next
  case (Inr s0)
  with assms have "spin s0 msgs = Inr s" by (simp add: main_def)
  with launch_consistent [OF Inr] show ?thesis by (rule spin_consistent)
qed

lemma main_orderly: "orderly (state_of (main p env msgs))"
proof (cases "main p env msgs")
  case (Inr s)
  then show ?thesis
    by (simp add: state_of_def consistent_orderly [OF main_consistent])
next
  case (Inl a)
  obtain e s where a: "a = (e, s)" by (cases a)
  show ?thesis
  proof (cases "launch p env")
    case l: (Inl b)
    with Inl a show ?thesis
      by (simp add: main_def state_of_def launch_orderly)
  next
    case (Inr s0)
    with Inl a have "spin s0 msgs = Inl (e, s)" by (simp add: main_def)
    with launch_consistent [OF Inr] have "orderly s" by (rule spin_orderly)
    with Inl a show ?thesis by (simp add: state_of_def)
  qed
qed

lemma begins_start:
  assumes "start_recording s env = Inr s'"
  shows "begins s' = Suc (begins s) \<and> ends s' = ends s"
proof -
  from start_recording_Inr [OF assms] obtain ro ns where
    "s' = s\<lparr>storage_options := storage_options (set_storage_options s env),
            writer := Some (next_obj s),
            recorder := Some \<lparr>rec_id = Suc (next_obj s), rec_writer = Some (next_obj s),
                               rec_storage = storage_options (set_storage_options s env),
                               rec_options = ro\<rparr>,
            executor := Some (ns @ [RecorderNode (Suc (next_obj s))]),
            next_obj := Suc (Suc (next_obj s)),
            calls := calls s @ [MakeWriter (next_obj s), MakeRecorder (Suc (next_obj s)),
                                AddNode (Suc (next_obj s)), Record (Suc (next_obj s))],
            recording := True\<rparr>"
    by blast
  then show ?thesis by (simp add: begins_def ends_def)
qed

lemma start_recording_sets_flag: "start_recording s env = Inr s' \<Longrightarrow> recording s'"
  by (drule start_recording_Inr) auto

lemma start_recording_topics:
  "start_recording s env = Inr s' \<Longrightarrow> logged_topics s' = logged_topics s \<and> logged_topics s \<noteq> []"
  by (drule start_recording_Inr) (auto simp: record_options_of_def)

lemma stop_recording_topics:
  "stop_recording s env = Inr s' \<Longrightarrow> logged_topics s' = logged_topics s"
  by (auto simp: stop_recording_def Let_def split: if_splits option.splits)

lemma spin_topics: "spin s msgs = Inr s' \<Longrightarrow> logged_topics s' = logged_topics s"
proof (induction msgs arbitrary: s)
  case Nil
  then show ?case by simp
next
  case (Cons m msgs)
  obtain msg env where m: "m = (msg, env)" by (cases m)
  show ?case
  proof (cases "control_callback s msg env")
    case (Inl a)
    with Cons.prems m show ?thesis by simp
  next
    case (Inr s1)
    then have "logged_topics s1 = logged_topics s"
      by (auto simp: control_callback_cases split: if_splits
          dest: start_recording_topics stop_recording_topics)
    moreover from Inr Cons.prems m have "spin s1 msgs = Inr s'" by simp
    ultimately show ?thesis using Cons.IH by simp
  qed
qed

lemma main_topics:
  assumes "main p env msgs = Inr s"
  shows "logged_topics s \<noteq> []"
proof (cases "launch p env")
  case (Inl a)
  with assms show ?thesis by (simp add: main_def)
next
  case (Inr s0)
  then have "logged_topics s0 \<noteq> []"
    unfolding launch_def by (auto dest: start_recording_topics)
  moreover from Inr assms have "spin s0 msgs = Inr s" by (simp add: main_def)
  ultimately show ?thesis by (simp add: spin_topics)
qed

lemma recorder_nodes_mem: "i \<in> set (recorder_nodes ns) \<Longrightarrow> RecorderNode i \<in> set ns"
  by (induction ns rule: recorder_nodes.induct) auto

lemmas run_defs = main_def launch_def set_executor_def BagRecorder_new_def start_defs
  record_options_of_def control_callback_def stop_recording_def registered_def sessions_def
  state_of_def

section \<open>One session at a time\<close>

text \<open>
  C1. At most one capture session is ever active. Take any parameters, any clock
  readings and faults, and any sequence of control messages handed to the callback in
  the order of arrival after the start at launch. In the state the run ends in,
  returned or stopped at a failure, the history of outgoing calls reads as sessions
  one after the other (the calls of a begin are made only while no session is open,
  and a session is closed before the next is opened), and the executor holds at most
  one recorder node. Where the run returned, the flag \<open>recording\<close> says exactly
  whether a session is open, and the open session is the one of the stored recorder.
\<close>

theorem at_most_one_session:
  "sessions (calls (state_of (main p env msgs))) \<noteq> None
   \<and> length (registered (state_of (main p env msgs))) \<le> 1
   \<and> (\<forall>s. main p env msgs = Inr s \<longrightarrow>
        (if recording s
         then \<exists>r. recorder s = Some r \<and> registered s = [rec_id r]
                \<and> sessions (calls s) = Some (Session (rec_id r))
         else registered s = [] \<and> sessions (calls s) = Some NoSession))"
proof -
  have "orderly (state_of (main p env msgs))"
    by (rule main_orderly)
  moreover have "if recording s
         then \<exists>r. recorder s = Some r \<and> registered s = [rec_id r]
                \<and> sessions (calls s) = Some (Session (rec_id r))
         else registered s = [] \<and> sessions (calls s) = Some NoSession"
    if "main p env msgs = Inr s" for s
    using main_consistent [OF that]
    by (auto simp: consistent_def split: option.splits if_splits)
  ultimately show ?thesis
    by (simp add: orderly_def)
qed

text \<open>
  The launch with the wildcard, then enable, disable, enable: the run returns in the
  state Recording, and the one registered recorder is the third one made.
\<close>

theorem at_most_one_session_witness:
  "recording (projr (main \<lparr>dataFolder = ''/data'', fileDuration = 60, loggedTopics = [''*'']\<rparr>
        \<lparr>clock = 0, throws = {}\<rparr>
        [(\<lparr>enable_recording = True\<rparr>, \<lparr>clock = 1, throws = {}\<rparr>),
         (\<lparr>enable_recording = False\<rparr>, \<lparr>clock = 2, throws = {}\<rparr>),
         (\<lparr>enable_recording = True\<rparr>, \<lparr>clock = 3, throws = {}\<rparr>)]))
   \<and> registered (projr (main \<lparr>dataFolder = ''/data'', fileDuration = 60, loggedTopics = [''*'']\<rparr>
        \<lparr>clock = 0, throws = {}\<rparr>
        [(\<lparr>enable_recording = True\<rparr>, \<lparr>clock = 1, throws = {}\<rparr>),
         (\<lparr>enable_recording = False\<rparr>, \<lparr>clock = 2, throws = {}\<rparr>),
         (\<lparr>enable_recording = True\<rparr>, \<lparr>clock = 3, throws = {}\<rparr>)])) = [3]"
  using at_most_one_session [of "\<lparr>dataFolder = ''/data'', fileDuration = 60, loggedTopics = [''*'']\<rparr>"
        "\<lparr>clock = 0, throws = {}\<rparr>"
        "[(\<lparr>enable_recording = True\<rparr>, \<lparr>clock = 1, throws = {}\<rparr>),
         (\<lparr>enable_recording = False\<rparr>, \<lparr>clock = 2, throws = {}\<rparr>),
         (\<lparr>enable_recording = True\<rparr>, \<lparr>clock = 3, throws = {}\<rparr>)]"]
  by (simp add: run_defs)

section \<open>The topic filter\<close>

text \<open>
  C2, as the code has it. For every non-empty configured topic list: if its first
  element is the wildcard \<open>''*''\<close>, the record options say "all topics" and carry an
  empty topic list; otherwise they say "not all" and carry exactly the configured
  list, in its order and with its duplicates.
\<close>

theorem topic_filter_of_list:
  "configured \<noteq> [] \<Longrightarrow>
     \<exists>ro. record_options_of configured = Inr ro
        \<and> all ro = (hd configured = ''*'')
        \<and> topics ro = (if hd configured = ''*'' then [] else configured)"
  by (cases configured) (simp_all add: record_options_of_Cons)

theorem topic_filter_of_list_witness:
  "[''*''] \<noteq> [] \<and> [''/a'', ''/b'', ''/a''] \<noteq> []
   \<and> all (projr (record_options_of [''*''])) \<and> topics (projr (record_options_of [''*''])) = []
   \<and> \<not> all (projr (record_options_of [''/a'', ''/b'', ''/a'']))
   \<and> topics (projr (record_options_of [''/a'', ''/b'', ''/a''])) = [''/a'', ''/b'', ''/a'']"
  using topic_filter_of_list [of "[''*'']"] topic_filter_of_list [of "[''/a'', ''/b'', ''/a'']"]
  by auto

text \<open>
  C2 as the claim states it asks for a deduplicated list. A list that names a topic
  twice is handed on with both entries.
\<close>

theorem topic_filter_not_deduplicated:
  "record_options_of [''/a'', ''/a''] = Inr \<lparr>all = False, is_discovery_disabled = False,
      topics = [''/a'', ''/a''], rmw_serialization_format = ''cdr'', topic_polling_interval = 1000\<rparr>
   \<and> \<not> distinct (topics (projr (record_options_of [''/a'', ''/a''])))"
  by (simp add: record_options_of_def)

text \<open>
  C9. The wildcard test looks at the first element only. Whenever
  \<^verbatim>\<open>start_recording\<close> returns, the recorder it made has these options: if the
  list starts with \<open>''*''\<close>, all topics are recorded, the topic list is empty and the
  names after the first play no part; if the list starts with another name, the whole
  list is the topic list, so a \<open>''*''\<close> further back is kept as a topic name.
\<close>

theorem wildcard_only_in_front:
  assumes "start_recording s env = Inr s'"
  shows "\<exists>r. recorder s' = Some r
     \<and> (\<forall>rest. logged_topics s = ''*'' # rest \<longrightarrow>
           all (rec_options r) \<and> topics (rec_options r) = []
           \<and> record_options_of (''*'' # rest) = record_options_of [''*''])
     \<and> (\<forall>first rest. logged_topics s = first # rest \<and> first \<noteq> ''*'' \<longrightarrow>
           \<not> all (rec_options r) \<and> topics (rec_options r) = first # rest
           \<and> (''*'' \<in> set rest \<longrightarrow> ''*'' \<in> set (topics (rec_options r))))"
proof -
  from start_recording_Inr [OF assms] obtain ro where
    ro: "record_options_of (logged_topics s) = Inr ro" and
    r: "recorder s' = Some \<lparr>rec_id = Suc (next_obj s), rec_writer = Some (next_obj s),
                               rec_storage = storage_options (set_storage_options s env),
                               rec_options = ro\<rparr>"
    by auto
  from ro show ?thesis
    unfolding r by (auto simp: record_options_of_Cons)
qed

theorem wildcard_only_in_front_witness:
  "topics (rec_options (the (recorder (projr (start_recording
      (set_executor (BagRecorder_new \<lparr>dataFolder = ''/data'', fileDuration = 60,
          loggedTopics = [''*'', ''/a'']\<rparr>) (Some [ControlNode]))
      \<lparr>clock = 0, throws = {}\<rparr>))))) = []
   \<and> topics (rec_options (the (recorder (projr (start_recording
      (set_executor (BagRecorder_new \<lparr>dataFolder = ''/data'', fileDuration = 60,
          loggedTopics = [''/a'', ''*'']\<rparr>) (Some [ControlNode]))
      \<lparr>clock = 0, throws = {}\<rparr>))))) = [''/a'', ''*'']"
  using wildcard_only_in_front [of "set_executor (BagRecorder_new \<lparr>dataFolder = ''/data'', fileDuration = 60,
          loggedTopics = [''*'', ''/a'']\<rparr>) (Some [ControlNode])" "\<lparr>clock = 0, throws = {}\<rparr>"]
    wildcard_only_in_front [of "set_executor (BagRecorder_new \<lparr>dataFolder = ''/data'', fileDuration = 60,
          loggedTopics = [''/a'', ''*'']\<rparr>) (Some [ControlNode])" "\<lparr>clock = 0, throws = {}\<rparr>"]
  by (simp add: run_defs)

section \<open>Configuration at launch\<close>

text \<open>
  C3, as the code has it. The launch checks nothing about the duration: with a
  non-empty topic list and no call that throws, it returns in the state Recording for
  every value of \<^verbatim>\<open>fileDuration\<close>, positive or not, and the rotation limit handed to
  the storage is that value, cut to 32 bits and read as an unsigned 64-bit number.
\<close>

theorem launch_takes_any_duration:
  assumes "loggedTopics p \<noteq> []" and "throws env = {}"
  shows "\<exists>s. launch p env = Inr s \<and> recording s
     \<and> max_bagfile_duration (storage_options s) = scast (ucast (fileDuration p) :: 32 word)"
proof -
  from assms(1) obtain t ts where "loggedTopics p = t # ts" by (cases "loggedTopics p") auto
  then show ?thesis
    using assms(2)
    by (simp add: launch_def set_executor_def BagRecorder_new_def start_defs record_options_of_Cons)
qed

theorem launch_takes_any_duration_witness:
  "[''/rosout''] \<noteq> [] \<and>
   recording (projr (launch \<lparr>dataFolder = ''/data'', fileDuration = - 5, loggedTopics = [''/rosout'']\<rparr>
             \<lparr>clock = 0, throws = {}\<rparr>))
   \<and> max_bagfile_duration (storage_options (projr (launch
        \<lparr>dataFolder = ''/data'', fileDuration = - 5, loggedTopics = [''/rosout'']\<rparr>
             \<lparr>clock = 0, throws = {}\<rparr>))) = 18446744073709551611"
  using launch_takes_any_duration [of "\<lparr>dataFolder = ''/data'', fileDuration = - 5, loggedTopics = [''/rosout'']\<rparr>"
      "\<lparr>clock = 0, throws = {}\<rparr>"]
  by (simp add: run_defs)

text \<open>
  C3 as the claim states it says that a non-positive duration makes the launch fail.
  With the duration 0 the launch returns and the node is recording.
\<close>

theorem zero_duration_starts:
  "\<not> isl (launch \<lparr>dataFolder = ''/data'', fileDuration = 0, loggedTopics = [''/rosout'']\<rparr>
             \<lparr>clock = 0, throws = {}\<rparr>)
   \<and> recording (projr (launch \<lparr>dataFolder = ''/data'', fileDuration = 0, loggedTopics = [''/rosout'']\<rparr>
             \<lparr>clock = 0, throws = {}\<rparr>))"
  by (simp add: run_defs)

section \<open>Signals, start and stop\<close>

text \<open>
  C5. A control signal that asks for the state the controller is in changes nothing:
  enable while recording returns the same state, and so does disable while idle, so
  no begin and no end is called. From the idle state, when the first enable returned,
  a second enable returns the same state again, and the two together made one call
  of \<^verbatim>\<open>record()\<close> and no call of \<^verbatim>\<open>stop()\<close>; handing enable to the callback twice
  gives the result of handing it once.
\<close>

theorem repeated_signal_is_noop:
  "(recording s \<longrightarrow> control_callback s \<lparr>enable_recording = True\<rparr> env = Inr s)
   \<and> (\<not> recording s \<longrightarrow> control_callback s \<lparr>enable_recording = False\<rparr> env = Inr s)
   \<and> (\<not> recording s \<and> control_callback s \<lparr>enable_recording = True\<rparr> env1 = Inr s1 \<longrightarrow>
        control_callback s1 \<lparr>enable_recording = True\<rparr> env2 = Inr s1
        \<and> begins s1 = Suc (begins s) \<and> ends s1 = ends s)
   \<and> spin s [(\<lparr>enable_recording = True\<rparr>, env1), (\<lparr>enable_recording = True\<rparr>, env2)]
       = spin s [(\<lparr>enable_recording = True\<rparr>, env1)]"
proof -
  have twice: "control_callback s1 \<lparr>enable_recording = True\<rparr> env2 = Inr s1"
    if "control_callback s \<lparr>enable_recording = True\<rparr> env1 = Inr s1" for s1
    using that
    by (auto simp: control_callback_cases dest: start_recording_sets_flag split: if_splits)
  have "spin s [(\<lparr>enable_recording = True\<rparr>, env1), (\<lparr>enable_recording = True\<rparr>, env2)]
       = spin s [(\<lparr>enable_recording = True\<rparr>, env1)]"
    by (cases "control_callback s \<lparr>enable_recording = True\<rparr> env1") (simp_all add: twice)
  then show ?thesis
    using twice
    by (auto simp: control_callback_cases stop_recording_idle dest: begins_start)
qed

theorem repeated_signal_is_noop_witness:
  "control_callback (projr (launch \<lparr>dataFolder = ''/data'', fileDuration = 60, loggedTopics = [''*'']\<rparr>
        \<lparr>clock = 0, throws = {}\<rparr>)) \<lparr>enable_recording = True\<rparr> \<lparr>clock = 1, throws = {}\<rparr>
     = launch \<lparr>dataFolder = ''/data'', fileDuration = 60, loggedTopics = [''*'']\<rparr>
        \<lparr>clock = 0, throws = {}\<rparr>
   \<and> control_callback (set_executor (BagRecorder_new
          \<lparr>dataFolder = ''/data'', fileDuration = 60, loggedTopics = [''*'']\<rparr>) (Some [ControlNode]))
        \<lparr>enable_recording = False\<rparr> \<lparr>clock = 1, throws = {}\<rparr>
     = Inr (set_executor (BagRecorder_new
          \<lparr>dataFolder = ''/data'', fileDuration = 60, loggedTopics = [''*'']\<rparr>) (Some [ControlNode]))
   \<and> begins (projr (spin (set_executor (BagRecorder_new
          \<lparr>dataFolder = ''/data'', fileDuration = 60, loggedTopics = [''*'']\<rparr>) (Some [ControlNode]))
        [(\<lparr>enable_recording = True\<rparr>, \<lparr>clock = 1, throws = {}\<rparr>),
         (\<lparr>enable_recording = True\<rparr>, \<lparr>clock = 2, throws = {}\<rparr>)])) = 1"
  using repeated_signal_is_noop [of "projr (launch \<lparr>dataFolder = ''/data'', fileDuration = 60, loggedTopics = [''*'']\<rparr>
        \<lparr>clock = 0, throws = {}\<rparr>)" "\<lparr>clock = 1, throws = {}\<rparr>"]
    repeated_signal_is_noop [of "set_executor (BagRecorder_new
          \<lparr>dataFolder = ''/data'', fileDuration = 60, loggedTopics = [''*'']\<rparr>) (Some [ControlNode])"
       "\<lparr>clock = 1, throws = {}\<rparr>" "\<lparr>clock = 1, throws = {}\<rparr>" _ "\<lparr>clock = 2, throws = {}\<rparr>"]
  by (simp add: run_defs begins_def)

text \<open>
  C6. For every valid configuration, \<^verbatim>\<open>start_recording\<close> followed at once by
  \<^verbatim>\<open>stop_recording\<close>, with an executor that holds no recorder node and no call that
  throws, returns in the idle state, and the executor holds the nodes it held before:
  no recorder node is registered.
\<close>

theorem start_then_stop_is_idle:
  assumes "valid_config s" and "executor s = Some ns" and "recorder_nodes ns = []"
    and "throws env = {}" and "throws env' = {}"
  shows "\<exists>s'. and_then (start_recording s env) (\<lambda>s1. stop_recording s1 env') = Inr s'
     \<and> \<not> recording s' \<and> executor s' = Some ns \<and> registered s' = []"
proof -
  from assms(1) obtain t ts where "logged_topics s = t # ts"
    by (cases "logged_topics s") (auto simp: valid_config_def)
  then have ro: "record_options_of (logged_topics s) = Inr \<lparr>all = (t = ''*''), is_discovery_disabled = False,
          topics = (if t = ''*'' then [] else t # ts),
          rmw_serialization_format = ''cdr'', topic_polling_interval = 1000\<rparr>"
    by (simp add: record_options_of_Cons)
  from assms(3) have "RecorderNode (Suc (next_obj s)) \<notin> set ns"
    by (rule recorder_nodes_Nil_notin)
  then show ?thesis
    using assms(3,5)
    by (simp add: start_recording_succeeds [OF ro assms(2) assms(4)] stop_recording_def
        registered_def)
qed

theorem start_then_stop_is_idle_witness:
  "valid_config (set_executor (BagRecorder_new
          \<lparr>dataFolder = ''/data'', fileDuration = 60, loggedTopics = [''*'']\<rparr>) (Some [ControlNode]))
   \<and> \<not> recording (projr (and_then (start_recording (set_executor (BagRecorder_new
          \<lparr>dataFolder = ''/data'', fileDuration = 60, loggedTopics = [''*'']\<rparr>) (Some [ControlNode]))
          \<lparr>clock = 0, throws = {}\<rparr>) (\<lambda>s1. stop_recording s1 \<lparr>clock = 1, throws = {}\<rparr>)))
   \<and> executor (projr (and_then (start_recording (set_executor (BagRecorder_new
          \<lparr>dataFolder = ''/data'', fileDuration = 60, loggedTopics = [''*'']\<rparr>) (Some [ControlNode]))
          \<lparr>clock = 0, throws = {}\<rparr>) (\<lambda>s1. stop_recording s1 \<lparr>clock = 1, throws = {}\<rparr>)))
      = Some [ControlNode]"
  using start_then_stop_is_idle [of "set_executor (BagRecorder_new
          \<lparr>dataFolder = ''/data'', fileDuration = 60, loggedTopics = [''*'']\<rparr>) (Some [ControlNode])"
        "[ControlNode]" "\<lparr>clock = 0, throws = {}\<rparr>" "\<lparr>clock = 1, throws = {}\<rparr>"]
  by (simp add: run_defs valid_config_def)

text \<open>
  C7, as the code has it. When \<^verbatim>\<open>start_recording\<close> is called in the idle state and
  fails, the flag stays false. Nothing that was done before the failure is undone:
  when the failing call is \<^verbatim>\<open>record()\<close>, the recorder node that was added to the
  executor stays there; when the failure comes earlier, the registry is as it was.
\<close>

theorem failed_begin_stays_idle:
  assumes "\<not> recording s" and "start_recording s env = Inl (e, s')"
  shows "\<not> recording s'
     \<and> (if e = Exception At_record
        then \<exists>ns. executor s = Some ns \<and> executor s' = Some (ns @ [RecorderNode (Suc (next_obj s))])
        else executor s' = executor s)"
  using assms start_recording_Inl [OF assms(2)] start_recording_Inl_executor [OF assms(2)]
  by simp

theorem failed_begin_stays_idle_witness:
  "\<not> recording (state_of (launch \<lparr>dataFolder = ''/data'', fileDuration = 60, loggedTopics = [''*'']\<rparr>
          \<lparr>clock = 0, throws = {At_make_recorder}\<rparr>))
   \<and> executor (state_of (launch \<lparr>dataFolder = ''/data'', fileDuration = 60, loggedTopics = [''*'']\<rparr>
          \<lparr>clock = 0, throws = {At_make_recorder}\<rparr>)) = Some [ControlNode]"
  using failed_begin_stays_idle [of "set_executor (BagRecorder_new
          \<lparr>dataFolder = ''/data'', fileDuration = 60, loggedTopics = [''*'']\<rparr>) (Some [ControlNode])"
       "\<lparr>clock = 0, throws = {At_make_recorder}\<rparr>" "Exception At_make_recorder"
       "state_of (launch \<lparr>dataFolder = ''/data'', fileDuration = 60, loggedTopics = [''*'']\<rparr>
          \<lparr>clock = 0, throws = {At_make_recorder}\<rparr>)"]
  by (simp add: run_defs)

text \<open>
  C7 as the claim states it says that no part of the session is left behind. At the
  launch, when \<^verbatim>\<open>record()\<close> throws, the run fails with the flag false and the new
  recorder node registered in the executor.
\<close>

theorem failed_record_leaves_node:
  "isl (launch \<lparr>dataFolder = ''/data'', fileDuration = 60, loggedTopics = [''*'']\<rparr>
          \<lparr>clock = 0, throws = {At_record}\<rparr>)
   \<and> \<not> recording (state_of (launch \<lparr>dataFolder = ''/data'', fileDuration = 60, loggedTopics = [''*'']\<rparr>
          \<lparr>clock = 0, throws = {At_record}\<rparr>))
   \<and> executor (state_of (launch \<lparr>dataFolder = ''/data'', fileDuration = 60, loggedTopics = [''*'']\<rparr>
          \<lparr>clock = 0, throws = {At_record}\<rparr>)) = Some [ControlNode, RecorderNode 1]"
  by (simp add: run_defs)

text \<open>
  \<^verbatim>\<open>reset_bag_recording\<close>, run on its own while recording in a state reached by
  \<^verbatim>\<open>main\<close> and with no call that throws: one \<^verbatim>\<open>stop()\<close> and the removal of the
  old recorder, then the calls of one new begin, and the node is recording again.
  What other threads of the executor may do in between is outside this model.
\<close>

lemma reset_bag_recording_sequence:
  assumes "main p env msgs = Inr s" and "recording s" and "throws env1 = {}"
  shows "\<exists>r s1. recorder s = Some r \<and> reset_bag_recording s env1 = Inr s1 \<and> recording s1
     \<and> calls s1 = calls s @ [Stop (rec_id r), RemoveNode (rec_id r), MakeWriter (next_obj s),
           MakeRecorder (Suc (next_obj s)), AddNode (Suc (next_obj s)),
           Record (Suc (next_obj s))]
     \<and> registered s1 = [Suc (next_obj s)]"
proof -
  have "consistent s" by (rule main_consistent [OF assms(1)])
  with assms(2) obtain r ns where r: "recorder s = Some r" and ex: "executor s = Some ns"
    and reg: "recorder_nodes ns = [rec_id r]"
    by (auto simp: consistent_def registered_def split: option.splits)
  from reg have mem: "RecorderNode (rec_id r) \<in> set ns"
    by (intro recorder_nodes_mem) simp
  from main_topics [OF assms(1)] obtain t ts where ts: "logged_topics s = t # ts"
    by (cases "logged_topics s") auto
  show ?thesis
    using assms(2,3) r ex reg mem ts
    by (simp add: reset_bag_recording_def stop_recording_def start_defs record_options_of_Cons
        registered_def recorder_nodes_append recorder_nodes_removeAll)
qed

text \<open>
  C10. Stopping does not clear the handles. Let the node be recording in a state
  reached by a run of \<^verbatim>\<open>main\<close>, and let \<^verbatim>\<open>stop_recording\<close> return (the disable
  signal does just that). Then the node is idle, \<^verbatim>\<open>get_recorder\<close> and the writer
  handle are what they were, \<^verbatim>\<open>get_recorder\<close> is not null and is the recorder of the
  session that was registered and is now stopped and removed. A further disable
  leaves the state as it is, and the next enable that returns stores a recorder that
  is not the old one.
\<close>

theorem stop_keeps_handles:
  assumes "main p env msgs = Inr s" and "recording s" and "stop_recording s env1 = Inr s1"
  shows "control_callback s \<lparr>enable_recording = False\<rparr> env1 = Inr s1
     \<and> \<not> recording s1
     \<and> get_recorder s1 = get_recorder s \<and> writer s1 = writer s
     \<and> (\<exists>r. get_recorder s1 = Some r \<and> registered s = [rec_id r]
            \<and> calls s1 = calls s @ [Stop (rec_id r), RemoveNode (rec_id r)])
     \<and> control_callback s1 \<lparr>enable_recording = False\<rparr> env2 = Inr s1
     \<and> (\<forall>s2. control_callback s1 \<lparr>enable_recording = True\<rparr> env2 = Inr s2 \<longrightarrow>
            get_recorder s2 \<noteq> None \<and> get_recorder s2 \<noteq> get_recorder s1)"
proof -
  have cons: "consistent s" by (rule main_consistent [OF assms(1)])
  from stop_recording_Inr [OF assms(3,2)] obtain r ns where
    r: "recorder s = Some r" and ex: "executor s = Some ns" and
    s1: "s1 = s\<lparr>executor := Some (removeAll (RecorderNode (rec_id r)) ns),
            calls := calls s @ [Stop (rec_id r), RemoveNode (rec_id r)],
            recording := False\<rparr>"
    by blast
  from cons assms(2) r have reg: "registered s = [rec_id r]" and old: "rec_id r < next_obj s"
    by (auto simp: consistent_def)
  have fresh: "get_recorder s2 \<noteq> None \<and> get_recorder s2 \<noteq> get_recorder s1"
    if "control_callback s1 \<lparr>enable_recording = True\<rparr> env2 = Inr s2" for s2
  proof -
    from that have "start_recording s1 env2 = Inr s2"
      by (simp add: control_callback_cases s1)
    from start_recording_Inr [OF this] have "\<exists>r2. recorder s2 = Some r2 \<and> rec_id r2 = Suc (next_obj s1)"
      by auto
    with old r show ?thesis
      by (auto simp: get_recorder_def s1)
  qed
  from assms(3) r reg fresh show ?thesis
    by (simp add: control_callback_cases get_recorder_def s1 stop_recording_idle)
qed

theorem stop_keeps_handles_witness:
  "recording (projr (main \<lparr>dataFolder = ''/data'', fileDuration = 60, loggedTopics = [''*'']\<rparr>
        \<lparr>clock = 0, throws = {}\<rparr> []))
   \<and> get_recorder (projr (stop_recording (projr (main \<lparr>dataFolder = ''/data'', fileDuration = 60, loggedTopics = [''*'']\<rparr>
        \<lparr>clock = 0, throws = {}\<rparr> [])) \<lparr>clock = 1, throws = {}\<rparr>))
     = get_recorder (projr (main \<lparr>dataFolder = ''/data'', fileDuration = 60, loggedTopics = [''*'']\<rparr>
        \<lparr>clock = 0, throws = {}\<rparr> []))
   \<and> rec_id (the (get_recorder (projr (stop_recording (projr (main \<lparr>dataFolder = ''/data'', fileDuration = 60, loggedTopics = [''*'']\<rparr>
        \<lparr>clock = 0, throws = {}\<rparr> [])) \<lparr>clock = 1, throws = {}\<rparr>)))) = 1
   \<and> \<not> recording (projr (stop_recording (projr (main \<lparr>dataFolder = ''/data'', fileDuration = 60, loggedTopics = [''*'']\<rparr>
        \<lparr>clock = 0, throws = {}\<rparr> [])) \<lparr>clock = 1, throws = {}\<rparr>))"
  using stop_keeps_handles [of "\<lparr>dataFolder = ''/data'', fileDuration = 60, loggedTopics = [''*'']\<rparr>"
       "\<lparr>clock = 0, throws = {}\<rparr>" "[]"
       "projr (main \<lparr>dataFolder = ''/data'', fileDuration = 60, loggedTopics = [''*'']\<rparr>
        \<lparr>clock = 0, throws = {}\<rparr> [])"
       "\<lparr>clock = 1, throws = {}\<rparr>"
       "projr (stop_recording (projr (main \<lparr>dataFolder = ''/data'', fileDuration = 60, loggedTopics = [''*'']\<rparr>
        \<lparr>clock = 0, throws = {}\<rparr> [])) \<lparr>clock = 1, throws = {}\<rparr>)"]
  by (simp add: run_defs get_recorder_def)

section \<open>The path of a bag\<close>

subsection \<open>Leap years and the days before a year\<close>

lemma div_step:
  fixes y k :: int
  assumes "0 < k"
  shows "y div k - (y - 1) div k = (if y mod k = 0 then 1 else 0)"
proof (cases "y mod k = 0")
  case True
  have "k * (y div k) + y mod k = y" by (rule mult_div_mod_eq)
  with True have "y - 1 = k * (y div k - 1) + (k - 1)" by (simp add: algebra_simps)
  then have "(y - 1) div k = y div k - 1"
    by (rule int_div_pos_eq) (use assms in simp_all)
  with True show ?thesis by simp
next
  case False
  have "k * (y div k) + y mod k = y" by (rule mult_div_mod_eq)
  then have "y - 1 = k * (y div k) + (y mod k - 1)" by simp
  moreover from False have "0 \<le> y mod k - 1"
    using pos_mod_sign [OF assms, of y] by linarith
  moreover have "y mod k - 1 < k"
    using pos_mod_bound [OF assms, of y] by linarith
  ultimately have "(y - 1) div k = y div k"
    by (rule int_div_pos_eq)
  with False show ?thesis by simp
qed

lemma mod_400_100: "(y::int) mod 400 = 0 \<Longrightarrow> y mod 100 = 0"
  using mod_mod_cancel [of 100 400 y] by simp

lemma mod_100_4: "(y::int) mod 100 = 0 \<Longrightarrow> y mod 4 = 0"
  using mod_mod_cancel [of 4 100 y] by simp

lemma leap_arith:
  fixes a b c a' b' c' :: int
  assumes "a - a' = p" and "b - b' = q" and "c - c' = r"
  shows "(a - b + c) - (a' - b' + c') = p - q + r"
  using assms by linarith

lemma leaps_thru_step: "leaps_thru y - leaps_thru (y - 1) = (if is_leap y then 1 else 0)"
proof -
  have "leaps_thru y - leaps_thru (y - 1) =
      (if y mod 4 = 0 then 1 else 0) - (if y mod 100 = 0 then 1 else 0)
      + (if y mod 400 = 0 then 1 else 0)"
    unfolding leaps_thru_def by (rule leap_arith) (rule div_step, simp)+
  also have "\<dots> = (if is_leap y then 1 else 0)"
  proof (cases "y mod 400 = 0")
    case True
    with mod_400_100 [of y] mod_100_4 [of y] show ?thesis
      by (simp add: is_leap_def)
  next
    case n400: False
    show ?thesis
    proof (cases "y mod 100 = 0")
      case True
      with n400 mod_100_4 [of y] show ?thesis
        by (simp add: is_leap_def)
    next
      case False
      with n400 show ?thesis
        by (simp add: is_leap_def)
    qed
  qed
  finally show ?thesis .
qed

lemma days_before_year_step: "days_before_year (y + 1) = days_before_year y + year_len y"
proof (cases "is_leap y")
  case True
  with leaps_thru_step [of y] have "leaps_thru y = leaps_thru (y - 1) + 1" by simp
  with True show ?thesis by (simp add: days_before_year_def year_len_def)
next
  case False
  with leaps_thru_step [of y] have "leaps_thru y = leaps_thru (y - 1)" by simp
  with False show ?thesis by (simp add: days_before_year_def year_len_def)
qed

lemma days_before_year_1970: "days_before_year 1970 = 0"
  by (simp add: days_before_year_def leaps_thru_def)


lemma year_len_bounds: "0 < year_len y" "year_len y \<le> 366"
  by (simp_all add: year_len_def)

lemma year_loop_correct:
  "year_loop y d = (y', r) \<Longrightarrow>
     days_before_year y' + r = days_before_year y + d \<and> 0 \<le> r \<and> r < year_len y'"
proof (induction y d rule: year_loop.induct)
  case (1 y days)
  show ?case
  proof (cases "days < 0")
    case True
    with "1.prems" have "year_loop (y - 1) (days + year_len (y - 1)) = (y', r)"
      by (subst (asm) year_loop.simps) simp
    from "1.IH"(1) [OF True this] show ?thesis
      using days_before_year_step [of "y - 1"] by simp
  next
    case False
    show ?thesis
    proof (cases "year_len y \<le> days")
      case True
      with False "1.prems" have "year_loop (y + 1) (days - year_len y) = (y', r)"
        by (subst (asm) year_loop.simps) simp
      from "1.IH"(2) [OF False True this] show ?thesis
        using days_before_year_step [of y] by simp
    next
      case nle: False
      with False "1.prems" have "(y, days) = (y', r)"
        by (subst (asm) year_loop.simps) simp
      with False nle show ?thesis by simp
    qed
  qed
qed

lemma month_loop_correct:
  "month_loop ls m0 d0 = (m, d) \<Longrightarrow> 0 \<le> d0 \<Longrightarrow> d0 < sum_list ls \<Longrightarrow>
     m0 \<le> m \<and> nat (m - m0) < length ls \<and> 0 \<le> d \<and> d < ls ! nat (m - m0)
     \<and> sum_list (take (nat (m - m0)) ls) + d = d0"
proof (induction ls arbitrary: m0 d0)
  case Nil
  then show ?case by simp
next
  case (Cons l ls)
  show ?case
  proof (cases "d0 < l")
    case True
    with Cons.prems show ?thesis by simp
  next
    case False
    with Cons.prems have "month_loop ls (m0 + 1) (d0 - l) = (m, d)" "0 \<le> d0 - l"
      "d0 - l < sum_list ls"
      by simp_all
    from Cons.IH [OF this] have ih: "m0 + 1 \<le> m" "nat (m - (m0 + 1)) < length ls" "0 \<le> d"
      "d < ls ! nat (m - (m0 + 1))" "sum_list (take (nat (m - (m0 + 1))) ls) + d = d0 - l"
      by simp_all
    from ih(1) have "nat (m - m0) = Suc (nat (m - (m0 + 1)))" by simp
    with ih show ?thesis by simp
  qed
qed

lemma sum_list_month_lens: "sum_list (month_lens y) = year_len y"
  by (simp add: month_lens_def year_len_def)

lemma length_month_lens: "length (month_lens y) = 12"
  by (simp add: month_lens_def)

subsection \<open>The time of day\<close>

lemma time_of_day_sum:
  fixes t :: int
  shows "((t div 86400 * 24 + t mod 86400 div 3600) * 60 + t mod 86400 mod 3600 div 60) * 60
          + t mod 86400 mod 60 = t"
proof -
  define rem where "rem = t mod 86400"
  have a: "t = t div 86400 * 86400 + rem"
    by (simp add: rem_def)
  have b: "rem = rem div 3600 * 3600 + rem mod 3600"
    by simp
  have c: "rem mod 3600 = rem mod 3600 div 60 * 60 + rem mod 3600 mod 60"
    by simp
  have d: "rem mod 3600 mod 60 = rem mod 60"
    by (rule mod_mod_cancel) simp
  have "((t div 86400 * 24 + rem div 3600) * 60 + rem mod 3600 div 60) * 60 + rem mod 60
      = t div 86400 * 86400 + (rem div 3600 * 3600 + (rem mod 3600 div 60 * 60 + rem mod 3600 mod 60))"
    unfolding d by (simp add: algebra_simps)
  also have "\<dots> = t"
    using a b c by simp
  finally show ?thesis
    by (simp add: rem_def)
qed

lemma time_of_day_bounds:
  fixes t :: int
  shows "0 \<le> t mod 86400 div 3600" and "t mod 86400 div 3600 < 24"
    and "0 \<le> t mod 86400 mod 3600 div 60" and "t mod 86400 mod 3600 div 60 < 60"
    and "0 \<le> t mod 86400 mod 60" and "t mod 86400 mod 60 < 60"
proof -
  have r: "0 \<le> t mod 86400" "t mod 86400 < 86400" by simp_all
  have r': "0 \<le> t mod 86400 mod 3600" "t mod 86400 mod 3600 < 3600" by simp_all
  from r show "0 \<le> t mod 86400 div 3600" by (simp add: pos_imp_zdiv_nonneg_iff)
  from r have "t mod 86400 div 3600 \<le> 86399 div 3600"
    by (intro zdiv_mono1) simp_all
  then show "t mod 86400 div 3600 < 24" by simp
  from r' show "0 \<le> t mod 86400 mod 3600 div 60" by (simp add: pos_imp_zdiv_nonneg_iff)
  from r' have "t mod 86400 mod 3600 div 60 \<le> 3599 div 60"
    by (intro zdiv_mono1) simp_all
  then show "t mod 86400 mod 3600 div 60 < 60" by simp
  show "0 \<le> t mod 86400 mod 60" by simp
  show "t mod 86400 mod 60 < 60" by simp
qed

subsection \<open>The range of the clock, decimal digits, the broken-down time\<close>

lemma days_before_year_mono: "y \<le> y' \<Longrightarrow> days_before_year y \<le> days_before_year y'"
proof (induction y' rule: int_ge_induct)
  case base
  show ?case by simp
next
  case (step i)
  with days_before_year_step [of i] year_len_bounds(1) [of i] show ?case by linarith
qed

lemma days_before_year_1000: "days_before_year 1000 = - 354285"
  by (simp add: days_before_year_def leaps_thru_def)

lemma days_before_year_10000: "days_before_year 10000 = 2932897"
  by (simp add: days_before_year_def leaps_thru_def)

lemma year_in_range:
  assumes "days_before_year y + r = d" and "0 \<le> r" and "r < year_len y"
    and "- 106752 \<le> d" and "d \<le> 106751"
  shows "1000 \<le> y \<and> y \<le> 9999"
proof -
  have "\<not> y \<le> 999"
  proof
    assume "y \<le> 999"
    then have "days_before_year (y + 1) \<le> days_before_year 1000"
      by (intro days_before_year_mono) simp
    with assms days_before_year_step [of y] show False
      by (simp add: days_before_year_1000)
  qed
  moreover have "\<not> 10000 \<le> y"
  proof
    assume "10000 \<le> y"
    then have "days_before_year 10000 \<le> days_before_year y"
      by (rule days_before_year_mono)
    with assms show False
      by (simp add: days_before_year_10000)
  qed
  ultimately show ?thesis by simp
qed

lemma to_time_t_bounds: "- 9223372036 \<le> to_time_t tp \<and> to_time_t tp \<le> 9223372036"
proof -
  have "- (2 ^ 63) \<le> sint tp" "sint tp < 2 ^ 63"
    using sint_ge [of tp] sint_lt [of tp] by simp_all
  then have "\<bar>sint tp\<bar> \<le> 9223372036854775808" by simp
  then have "\<bar>sint tp\<bar> div 1000000000 \<le> 9223372036854775808 div 1000000000"
    by (intro zdiv_mono1) simp_all
  then have le: "\<bar>sint tp\<bar> div 1000000000 \<le> 9223372036" by simp
  have ge: "0 \<le> \<bar>sint tp\<bar> div 1000000000"
    by (simp add: pos_imp_zdiv_nonneg_iff)
  show ?thesis
  proof (cases "sint tp < 0")
    case True
    then have "to_time_t tp = - (\<bar>sint tp\<bar> div 1000000000)"
      by (simp add: to_time_t_def signed_divide_int_def)
    with le ge show ?thesis by simp
  next
    case False
    then have "to_time_t tp = sgn (sint tp) * (\<bar>sint tp\<bar> div 1000000000)"
      by (simp add: to_time_t_def signed_divide_int_def)
    with False le ge show ?thesis
      by (cases "sint tp = 0") (simp_all add: sgn_if)
  qed
qed

lemma days_bounds:
  fixes t :: int
  assumes "- 9223372036 \<le> t" and "t \<le> 9223372036"
  shows "- 106752 \<le> t div 86400" and "t div 86400 \<le> 106751"
proof -
  from assms(1) have "(- 9223372036) div 86400 \<le> t div 86400"
    by (intro zdiv_mono1) simp_all
  then show "- 106752 \<le> t div 86400" by simp
  from assms(2) have "t div 86400 \<le> 9223372036 div 86400"
    by (intro zdiv_mono1) simp_all
  then show "t div 86400 \<le> 106751" by simp
qed

lemma show_nat_1: "n < 10 \<Longrightarrow> show_nat n = [digit_char n]"
  by (simp add: show_nat.simps)

lemma show_nat_2:
  assumes "10 \<le> n" and "n < 100"
  shows "show_nat n = [digit_char (n div 10), digit_char (n mod 10)]"
proof -
  from assms have "n div 10 < 10" by simp
  with assms show ?thesis
    by (simp add: show_nat.simps [of n] show_nat_1)
qed

lemma show_nat_3:
  assumes "100 \<le> n" and "n < 1000"
  shows "show_nat n = [digit_char (n div 100), digit_char (n div 10 mod 10), digit_char (n mod 10)]"
proof -
  from assms have "10 \<le> n div 10" "n div 10 < 100" by simp_all
  from show_nat_2 [OF this] assms show ?thesis
    by (simp add: show_nat.simps [of n] div_mult2_eq [symmetric])
qed

lemma show_nat_4:
  assumes "1000 \<le> n" and "n < 10000"
  shows "show_nat n = [digit_char (n div 1000), digit_char (n div 100 mod 10),
                       digit_char (n div 10 mod 10), digit_char (n mod 10)]"
proof -
  from assms have "100 \<le> n div 10" "n div 10 < 1000" by simp_all
  from show_nat_3 [OF this] assms show ?thesis
    by (simp add: show_nat.simps [of n] div_mult2_eq [symmetric])
qed

lemma show_int_dec4:
  assumes "1000 \<le> i" and "i \<le> 9999"
  shows "show_int i = dec4 i"
proof -
  from assms have "1000 \<le> nat i" "nat i < 10000" by simp_all
  from show_nat_4 [OF this] assms show ?thesis
    by (simp add: show_int_def dec4_def Let_def)
qed

lemma show_int2_dec2:
  assumes "0 \<le> i" and "i < 100"
  shows "show_int2 i = dec2 i"
proof (cases "i < 10")
  case True
  with assms have "nat i < 10" by simp
  with True assms show ?thesis
    by (simp add: show_int2_def show_int_def dec2_def show_nat_1 digit_char_def Let_def)
next
  case False
  with assms have "10 \<le> nat i" "nat i < 100" by simp_all
  from show_nat_2 [OF this] False assms show ?thesis
    by (simp add: show_int2_def show_int_def dec2_def Let_def)
qed

lemma put_time_format:
  "put_time t ''%Y_%m_%d_%H_%M_%S'' =
     show_int (tm_year t + 1900) @ ''_'' @ show_int2 (tm_mon t + 1) @ ''_''
     @ show_int2 (tm_mday t) @ ''_'' @ show_int2 (tm_hour t) @ ''_''
     @ show_int2 (tm_min t) @ ''_'' @ show_int2 (tm_sec t)"
  by (simp add: conversion_def)

lemma gregorian_leap_is_leap: "gregorian_leap y = is_leap y"
proof (cases "y mod 400 = 0")
  case True
  with mod_400_100 [of y] mod_100_4 [of y] show ?thesis
    by (simp add: gregorian_leap_def is_leap_def dvd_eq_mod_eq_0)
next
  case n400: False
  show ?thesis
  proof (cases "y mod 100 = 0")
    case True
    with n400 mod_100_4 [of y] show ?thesis
      by (simp add: gregorian_leap_def is_leap_def dvd_eq_mod_eq_0)
  next
    case False
    with n400 show ?thesis
      by (simp add: gregorian_leap_def is_leap_def dvd_eq_mod_eq_0)
  qed
qed

lemma less_12_cases:
  "k < 12 \<Longrightarrow> k = 0 \<or> k = 1 \<or> k = 2 \<or> k = 3 \<or> k = 4 \<or> k = 5 \<or> k = 6 \<or> k = 7 \<or> k = 8
     \<or> k = 9 \<or> k = 10 \<or> k = (11::nat)"
  by arith

lemma month_lens_nth: "k < 12 \<Longrightarrow> month_lens y ! k = days_in_month y (int k + 1)"
  by (drule less_12_cases)
     (auto simp: month_lens_def days_in_month_def gregorian_leap_is_leap)

lemma month_lens_take:
  "k < 12 \<Longrightarrow> sum_list (take k (month_lens y)) = days_before_month y (int k + 1)"
  by (drule less_12_cases)
     (auto simp: month_lens_def days_before_month_def gregorian_leap_is_leap)

lemma days_in_month_le_31: "days_in_month y m \<le> 31"
  by (simp add: days_in_month_def)

lemma trunc_div_bounds:
  fixes k c :: int
  assumes "0 < c"
  shows "if 0 \<le> k then (k sdiv c) * c \<le> k \<and> k < (k sdiv c + 1) * c
         else (k sdiv c - 1) * c < k \<and> k \<le> (k sdiv c) * c"
proof (cases "0 \<le> k")
  case True
  with assms have sd: "k sdiv c = k div c"
    by (cases "k = 0") (simp_all add: signed_divide_int_def sgn_if)
  have e: "k div c * c + k mod c = k" by (rule div_mult_mod_eq)
  have "0 \<le> k mod c" "k mod c < c"
    using pos_mod_sign [OF assms, of k] pos_mod_bound [OF assms, of k] by simp_all
  with e have "k div c * c \<le> k" "k < k div c * c + c" by linarith+
  with True show ?thesis
    unfolding sd by (simp add: algebra_simps)
next
  case False
  with assms have sd: "k sdiv c = - ((- k) div c)"
    by (simp add: signed_divide_int_def sgn_if)
  have e: "(- k) div c * c + (- k) mod c = - k" by (rule div_mult_mod_eq)
  have "0 \<le> (- k) mod c" "(- k) mod c < c"
    using pos_mod_sign [OF assms, of "- k"] pos_mod_bound [OF assms, of "- k"] by simp_all
  with e have "(- k) div c * c \<le> - k" "- k < (- k) div c * c + c" by linarith+
  with False show ?thesis
    unfolding sd by (simp add: algebra_simps)
qed

lemma to_time_t_second:
  "if 0 \<le> sint now
   then to_time_t now * 1000000000 \<le> sint now \<and> sint now < (to_time_t now + 1) * 1000000000
   else (to_time_t now - 1) * 1000000000 < sint now \<and> sint now \<le> to_time_t now * 1000000000"
  unfolding to_time_t_def by (rule trunc_div_bounds) simp

lemma gmtime_correct:
  "\<exists>y mo d h mi s.
     gmtime t = \<lparr>tm_sec = s, tm_min = mi, tm_hour = h, tm_mday = d, tm_mon = mo - 1,
                  tm_year = y - 1900\<rparr>
     \<and> civil_ok y mo d h mi s \<and> timegm y mo d h mi s = t
     \<and> (\<exists>r. days_before_year y + r = t div 86400 \<and> 0 \<le> r \<and> r < year_len y)"
proof -
  define h where "h = t mod 86400 div 3600"
  define mi where "mi = t mod 86400 mod 3600 div 60"
  define s where "s = t mod 86400 mod 60"
  define days where "days = t div 86400"
  obtain y r where yl: "year_loop 1970 days = (y, r)"
    by (cases "year_loop 1970 days")
  obtain m d0 where ml: "month_loop (month_lens y) 0 r = (m, d0)"
    by (cases "month_loop (month_lens y) 0 r")
  from year_loop_correct [OF yl] have
    y: "days_before_year y + r = days" "0 \<le> r" "r < year_len y"
    by (simp_all add: days_before_year_1970)
  from y(3) have "r < sum_list (month_lens y)"
    by (simp add: sum_list_month_lens)
  from month_loop_correct [OF ml y(2) this] have
    m: "0 \<le> m" "nat m < 12" "0 \<le> d0" "d0 < month_lens y ! nat m"
      "sum_list (take (nat m) (month_lens y)) + d0 = r"
    by (simp_all add: length_month_lens)
  have g: "gmtime t = \<lparr>tm_sec = s, tm_min = mi, tm_hour = h, tm_mday = d0 + 1,
      tm_mon = (m + 1) - 1, tm_year = y - 1900\<rparr>"
    unfolding gmtime_def Let_def h_def mi_def s_def yl [unfolded days_def] by (simp add: ml)
  have tod: "0 \<le> h" "h < 24" "0 \<le> mi" "mi < 60" "0 \<le> s" "s < 60"
    unfolding h_def mi_def s_def by (rule time_of_day_bounds)+
  from m(1) have im: "int (nat m) + 1 = m + 1" by simp
  from m(4) have dl: "d0 < days_in_month y (m + 1)"
    unfolding month_lens_nth [OF m(2)] im .
  have ok: "civil_ok y (m + 1) (d0 + 1) h mi s"
    unfolding civil_ok_def using m(1,2,3) dl tod by simp
  have dm: "days_before_month y (m + 1) = sum_list (take (nat m) (month_lens y))"
    unfolding month_lens_take [OF m(2)] im ..
  have "days_before_year y + days_before_month y (m + 1) + (d0 + 1 - 1)
      = days_before_year y + (sum_list (take (nat m) (month_lens y)) + d0)"
    unfolding dm by simp
  also have "\<dots> = days_before_year y + r"
    by (simp only: m(5))
  also have "\<dots> = days"
    by (rule y(1))
  finally have tg: "timegm y (m + 1) (d0 + 1) h mi s = t"
    unfolding timegm_def h_def mi_def s_def days_def by (simp only: time_of_day_sum)
  show ?thesis
  proof (intro exI conjI)
    show "gmtime t = \<lparr>tm_sec = s, tm_min = mi, tm_hour = h, tm_mday = d0 + 1,
      tm_mon = (m + 1) - 1, tm_year = y - 1900\<rparr>"
      by (rule g)
    show "civil_ok y (m + 1) (d0 + 1) h mi s"
      by (rule ok)
    show "timegm y (m + 1) (d0 + 1) h mi s = t"
      by (rule tg)
    show "days_before_year y + r = t div 86400" using y(1) by (simp only: days_def)
    show "0 \<le> r" by (rule y(2))
    show "r < year_len y" by (rule y(3))
  qed
qed

lemma getCurrentUtcTime_stamp:
  "\<exists>y mo d h mi s. civil_ok y mo d h mi s \<and> timegm y mo d h mi s = to_time_t now
     \<and> getCurrentUtcTime now = YYYY_MM_DD_HH_MM_SS y mo d h mi s"
proof -
  from gmtime_correct [of "to_time_t now"] obtain y mo d h mi s r where
    g: "gmtime (to_time_t now) = \<lparr>tm_sec = s, tm_min = mi, tm_hour = h, tm_mday = d,
          tm_mon = mo - 1, tm_year = y - 1900\<rparr>" and
    ok: "civil_ok y mo d h mi s" and tg: "timegm y mo d h mi s = to_time_t now" and
    r: "days_before_year y + r = to_time_t now div 86400" "0 \<le> r" "r < year_len y"
    by blast
  from to_time_t_bounds [of now] have
    "- 106752 \<le> to_time_t now div 86400" "to_time_t now div 86400 \<le> 106751"
    by (simp_all add: days_bounds)
  from year_in_range [OF r this] have yr: "1000 \<le> y" "y \<le> 9999"
    by simp_all
  from ok have f: "1 \<le> mo" "mo \<le> 12" "1 \<le> d" "d \<le> days_in_month y mo"
    "0 \<le> h" "h < 24" "0 \<le> mi" "mi < 60" "0 \<le> s" "s < 60"
    by (simp_all add: civil_ok_def)
  have d31: "d \<le> 31"
    using f(4) days_in_month_le_31 [of y mo] by (rule order_trans)
  have "getCurrentUtcTime now =
      show_int y @ ''_'' @ show_int2 mo @ ''_'' @ show_int2 d @ ''_'' @ show_int2 h @ ''_''
      @ show_int2 mi @ ''_'' @ show_int2 s"
    unfolding getCurrentUtcTime_def Let_def put_time_format g by simp
  also have "\<dots> = YYYY_MM_DD_HH_MM_SS y mo d h mi s"
    using yr f(1,2,3,5-10) d31
    by (simp add: YYYY_MM_DD_HH_MM_SS_def show_int_dec4 show_int2_dec2)
  finally show ?thesis
    using ok tg by blast
qed

text \<open>
  C4, as the code has it. For every base directory and every reading of the clock at
  or after the epoch, \<^verbatim>\<open>getDataPath\<close> returns the base directory, then
  \<open>''/Bag_''\<close>, then the instant written as \<open>YYYY_MM_DD_HH_MM_SS\<close> in UTC: there
  is a calendar date and time of day, with the month, the day, the hour, the minute
  and the second in their ranges, whose second holds the clock reading (it begins at
  or before the reading, counted in nanoseconds from the epoch, and the next second
  begins after it), and the path ends in its four digits of the year and two digits
  of each other field, joined by underscores. For a reading before the epoch the
  whole seconds are cut towards the epoch: the reading lies in the second that ends
  at the stamped one, or on it. The reading 1727838245000000000 is
  2024-10-02T03:04:05Z, and under \<open>''/data''\<close> it gives
  \<open>''/data/Bag_2024_10_02_03_04_05''\<close>.
\<close>

theorem getDataPath_second_of_clock:
  "(\<exists>y mo d h mi s. civil_ok y mo d h mi s
      \<and> (if 0 \<le> sint now
          then timegm y mo d h mi s * 1000000000 \<le> sint now
             \<and> sint now < (timegm y mo d h mi s + 1) * 1000000000
          else (timegm y mo d h mi s - 1) * 1000000000 < sint now
             \<and> sint now \<le> timegm y mo d h mi s * 1000000000)
      \<and> getDataPath baseFolder now = baseFolder @ ''/Bag_'' @ YYYY_MM_DD_HH_MM_SS y mo d h mi s)
   \<and> civil_ok 2024 10 2 3 4 5
   \<and> timegm 2024 10 2 3 4 5 * 1000000000 = sint (1727838245000000000 :: 64 word)
   \<and> getDataPath ''/data'' 1727838245000000000 = ''/data/Bag_2024_10_02_03_04_05''"
proof (intro conjI)
  from getCurrentUtcTime_stamp [of now] obtain y mo d h mi s where
    ok: "civil_ok y mo d h mi s" and tg: "timegm y mo d h mi s = to_time_t now" and
    st: "getCurrentUtcTime now = YYYY_MM_DD_HH_MM_SS y mo d h mi s"
    by blast
  have sec: "if 0 \<le> sint now
          then timegm y mo d h mi s * 1000000000 \<le> sint now
             \<and> sint now < (timegm y mo d h mi s + 1) * 1000000000
          else (timegm y mo d h mi s - 1) * 1000000000 < sint now
             \<and> sint now \<le> timegm y mo d h mi s * 1000000000"
    unfolding tg by (rule to_time_t_second)
  have path: "getDataPath baseFolder now
      = baseFolder @ ''/Bag_'' @ YYYY_MM_DD_HH_MM_SS y mo d h mi s"
    by (simp add: getDataPath_def st)
  show "\<exists>y mo d h mi s. civil_ok y mo d h mi s
      \<and> (if 0 \<le> sint now
          then timegm y mo d h mi s * 1000000000 \<le> sint now
             \<and> sint now < (timegm y mo d h mi s + 1) * 1000000000
          else (timegm y mo d h mi s - 1) * 1000000000 < sint now
             \<and> sint now \<le> timegm y mo d h mi s * 1000000000)
      \<and> getDataPath baseFolder now = baseFolder @ ''/Bag_'' @ YYYY_MM_DD_HH_MM_SS y mo d h mi s"
    using ok sec path by blast
  show "civil_ok 2024 10 2 3 4 5"
    by code_simp
  show "timegm 2024 10 2 3 4 5 * 1000000000 = sint (1727838245000000000 :: 64 word)"
    by code_simp
  show "getDataPath ''/data'' 1727838245000000000 = ''/data/Bag_2024_10_02_03_04_05''"
    by code_simp
qed

text \<open>
  At the reading of 2024-10-02T03:04:05Z and half a second: the stamped second holds
  the reading.
\<close>

theorem getDataPath_second_of_clock_witness:
  "\<exists>y mo d h mi s. civil_ok y mo d h mi s
      \<and> timegm y mo d h mi s * 1000000000 \<le> 1727838245500000000
      \<and> 1727838245500000000 < (timegm y mo d h mi s + 1) * 1000000000
      \<and> getDataPath ''/data'' 1727838245500000000
          = ''/data/Bag_'' @ YYYY_MM_DD_HH_MM_SS y mo d h mi s"
  using getDataPath_second_of_clock [of 1727838245500000000 "''/data''"]
  by simp

text \<open>
  C4 as the claim states it speaks of every instant. One nanosecond before the epoch
  lies in the second 1969-12-31T23:59:59, and the path carries the stamp of the
  second after it.
\<close>

theorem pre_epoch_stamp_is_next_second:
  "civil_ok 1969 12 31 23 59 59
   \<and> timegm 1969 12 31 23 59 59 * 1000000000 \<le> sint (- 1 :: 64 word)
   \<and> sint (- 1 :: 64 word) < (timegm 1969 12 31 23 59 59 + 1) * 1000000000
   \<and> getDataPath ''/data'' (- 1) = ''/data/Bag_1970_01_01_00_00_00''
   \<and> getDataPath ''/data'' (- 1)
       \<noteq> ''/data'' @ ''/Bag_'' @ YYYY_MM_DD_HH_MM_SS 1969 12 31 23 59 59"
proof (intro conjI)
  show "civil_ok 1969 12 31 23 59 59"
    by code_simp
  show "timegm 1969 12 31 23 59 59 * 1000000000 \<le> sint (- 1 :: 64 word)"
    by code_simp
  show "sint (- 1 :: 64 word) < (timegm 1969 12 31 23 59 59 + 1) * 1000000000"
    by code_simp
  show "getDataPath ''/data'' (- 1) = ''/data/Bag_1970_01_01_00_00_00''"
    by code_simp
  show "getDataPath ''/data'' (- 1)
       \<noteq> ''/data'' @ ''/Bag_'' @ YYYY_MM_DD_HH_MM_SS 1969 12 31 23 59 59"
    by code_simp
qed

end
